theory Spec2Isabelle
  imports Complex_Main "HOL-Library.Word"
begin

section \<open>Machine arithmetic of the source\<close>

text \<open>
  The program is C++ (\<^verbatim>\<open>src/main.cpp\<close>). Its \<^verbatim>\<open>int\<close> is the 32-bit two's
  complement integer. Two models of its arithmetic are used.
  \<^item> In \<^verbatim>\<open>get_int\<close> and \<^verbatim>\<open>read_image\<close> the operands come from the bytes of a
    file, and a few bytes suffice to leave the range of \<^verbatim>\<open>int\<close> (the last
    \<^verbatim>\<open>base = base * 256\<close> of every four-byte read does). There every sum and
    product is wrapped by \<open>int32\<close>, as the machine does it.
  \<^item> In the transforms and in \<^verbatim>\<open>write_image\<close> the operands are the sizes and the
    channel values of a grid in memory. They are computed with mathematical
    integers, which is what the machine computes as long as the sizes of the
    grid, the size of the encoded file and the sum of three channels fit \<^verbatim>\<open>int\<close>.
  Division and remainder of \<^verbatim>\<open>int\<close> truncate towards zero; they are written out
  here because HOL's \<open>div\<close> and \<open>mod\<close> round downwards.
\<close>

definition int32 :: "int \<Rightarrow> int" where
  "int32 x = signed_take_bit 31 x"

definition c_div :: "int \<Rightarrow> int \<Rightarrow> int" where
  "c_div a b = sgn a * sgn b * (\<bar>a\<bar> div \<bar>b\<bar>)"

definition c_mod :: "int \<Rightarrow> int \<Rightarrow> int" where
  "c_mod a b = a - c_div a b * b"

text \<open>
  The implicit conversion of a \<^verbatim>\<open>double\<close> to an integer type drops the fraction
  (rounds towards zero). The only doubles the modelled functions build are an
  \<^verbatim>\<open>int\<close> plus the literal \<^verbatim>\<open>0.5\<close>, which a double represents exactly, so they
  are modelled by the reals.
\<close>

definition double_to_int :: "real \<Rightarrow> int" where
  "double_to_int x = (if 0 \<le> x then \<lfloor>x\<rfloor> else \<lceil>x\<rceil>)"

text \<open>
  \<^verbatim>\<open>for (int i = lo; i < hi; i++)\<close> and \<^verbatim>\<open>for (int i = hi; i >= 0; i--)\<close>, for a
  body that neither assigns the counter nor leaves the loop early (all loops of
  the modelled functions are of this kind).
\<close>

definition for_up :: "int \<Rightarrow> int \<Rightarrow> (int \<Rightarrow> 's \<Rightarrow> 's) \<Rightarrow> 's \<Rightarrow> 's" where
  "for_up lo hi body s = fold body [lo..hi - 1] s"

definition for_down :: "int \<Rightarrow> (int \<Rightarrow> 's \<Rightarrow> 's) \<Rightarrow> 's \<Rightarrow> 's" where
  "for_down hi body s = fold body (rev [0..hi]) s"

section \<open>Pixels and images\<close>

record Pixel =
  red :: int
  green :: int
  blue :: int

type_synonym image = "Pixel list list"

text \<open>
  \<^verbatim>\<open>vector<vector<Pixel> > v(h, vector<Pixel>(w))\<close>: \<open>h\<close> rows of \<open>w\<close>
  value-initialised (all-zero) pixels. A negative size converts to a huge
  unsigned one and the constructor throws \<^verbatim>\<open>std::length_error\<close>; the callers
  below test for that before they build the vector.
\<close>

definition new_image_of :: "int \<Rightarrow> int \<Rightarrow> image" where
  "new_image_of h w = replicate (nat h) (replicate (nat w) \<lparr>red = 0, green = 0, blue = 0\<rparr>)"

text \<open>
  The assignments \<^verbatim>\<open>img[i][j].red = v\<close>, \<^verbatim>\<open>.green\<close>, \<^verbatim>\<open>.blue\<close>. An index outside
  the vector is undefined behaviour in the source; the model leaves the image
  unchanged there, and every theorem below is about in-range accesses.
\<close>

definition store_red :: "image \<Rightarrow> int \<Rightarrow> int \<Rightarrow> int \<Rightarrow> image" where
  "store_red img i j v =
     img[nat i := (img ! nat i)[nat j := (img ! nat i ! nat j)\<lparr>red := v\<rparr>]]"

definition store_green :: "image \<Rightarrow> int \<Rightarrow> int \<Rightarrow> int \<Rightarrow> image" where
  "store_green img i j v =
     img[nat i := (img ! nat i)[nat j := (img ! nat i ! nat j)\<lparr>green := v\<rparr>]]"

definition store_blue :: "image \<Rightarrow> int \<Rightarrow> int \<Rightarrow> int \<Rightarrow> image" where
  "store_blue img i j v =
     img[nat i := (img ! nat i)[nat j := (img ! nat i ! nat j)\<lparr>blue := v\<rparr>]]"

datatype fault = LengthError

text \<open>A grid is rectangular and non-empty: at least one row, all rows as long as the first.\<close>

definition rectangular :: "image \<Rightarrow> bool" where
  "rectangular img \<longleftrightarrow> img \<noteq> [] \<and> (\<forall>row \<in> set img. length row = length (img ! 0))"

section \<open>The transforms\<close>

text \<open>\<^verbatim>\<open>process_3\<close>: grayscale.\<close>

definition process_3 :: "image \<Rightarrow> image" where
  "process_3 img =
     (let width_pixels = int (length (img ! 0));
          height_pixels = int (length img);
          new_image = new_image_of height_pixels width_pixels
      in for_up 0 height_pixels (\<lambda>row.
           for_up 0 width_pixels (\<lambda>col new_image.
             let r = red (img ! nat row ! nat col);
                 g = green (img ! nat row ! nat col);
                 b = blue (img ! nat row ! nat col);
                 gray_value = double_to_int (of_int (c_div (r + g + b) 3) + 1 / 2)
             in store_blue (store_green (store_red new_image row col gray_value)
                  row col gray_value) row col gray_value))
           new_image)"

text \<open>\<^verbatim>\<open>process_4\<close>: quarter turn clockwise.\<close>

definition process_4 :: "image \<Rightarrow> image" where
  "process_4 img =
     (let width_pixels = int (length (img ! 0));
          height_pixels = int (length img);
          new_image = new_image_of width_pixels height_pixels
      in for_up 0 height_pixels (\<lambda>row.
           for_up 0 width_pixels (\<lambda>col new_image.
             let r = red (img ! nat row ! nat col);
                 g = green (img ! nat row ! nat col);
                 b = blue (img ! nat row ! nat col)
             in store_blue (store_green (store_red new_image
                  col ((height_pixels - 1) - row) r)
                  col ((height_pixels - 1) - row) g)
                  col ((height_pixels - 1) - row) b))
           new_image)"

text \<open>
  \<^verbatim>\<open>process_5\<close>: a number of quarter turns. The first branch also prints a
  diagnostic, which the model leaves out.
\<close>

definition process_5 :: "image \<Rightarrow> int \<Rightarrow> image" where
  "process_5 img number =
     (let angle = number * 90
      in if c_mod angle 90 \<noteq> 0 then img
         else if c_mod angle 360 = 0 then img
         else if c_mod angle 360 = 90 then process_4 img
         else if c_mod angle 360 = 180 then process_4 (process_4 img)
         else process_4 (process_4 (process_4 img)))"



text \<open>\<^verbatim>\<open>process_10\<close>: black, white, red, green and blue only.\<close>

definition process_10 :: "image \<Rightarrow> image" where
  "process_10 img =
     (let width_pixels = int (length (img ! 0));
          height_pixels = int (length img);
          new_image = new_image_of height_pixels width_pixels
      in for_up 0 height_pixels (\<lambda>row.
           for_up 0 width_pixels (\<lambda>col new_image.
             let r = red (img ! nat row ! nat col);
                 g = green (img ! nat row ! nat col);
                 b = blue (img ! nat row ! nat col);
                 max_color = max (max r g) b;
                 (new_red, new_green, new_blue) =
                   (if r + g + b \<ge> 550 then (255, 255, 255)
                    else if r + g + b \<le> 150 then (0, 0, 0)
                    else if max_color = r then (255, 0, 0)
                    else if max_color = g then (0, 255, 0)
                    else (0, 0, 255))
             in store_blue (store_green (store_red new_image row col new_red)
                  row col new_green) row col new_blue))
           new_image)"

section \<open>The codec\<close>

subsection \<open>Files and input streams\<close>

text \<open>
  A file is its byte sequence. An \<^verbatim>\<open>fstream\<close> opened for reading is the file's
  bytes, the read position and the failure flag (\<^verbatim>\<open>failbit\<close>). Opening a file
  that does not exist sets the flag; \<^verbatim>\<open>get()\<close> at or beyond the end returns
  \<^verbatim>\<open>EOF\<close> (\<open>-1\<close>) and sets it; while it is set, \<^verbatim>\<open>seekg\<close> does nothing and
  \<^verbatim>\<open>get()\<close> returns \<^verbatim>\<open>EOF\<close>. The source never clears the flag.
\<close>

type_synonym byte = "8 word"

record fstream =
  content :: "byte list"
  gpos :: nat
  failed :: bool

definition open_in :: "byte list option \<Rightarrow> fstream" where
  "open_in file =
     (case file of
        None \<Rightarrow> \<lparr>content = [], gpos = 0, failed = True\<rparr>
      | Some bs \<Rightarrow> \<lparr>content = bs, gpos = 0, failed = False\<rparr>)"

definition stream_get :: "fstream \<Rightarrow> int \<times> fstream" where
  "stream_get st =
     (if failed st then (- 1, st)
      else if gpos st < length (content st)
        then (uint (content st ! gpos st), st\<lparr>gpos := gpos st + 1\<rparr>)
      else (- 1, st\<lparr>failed := True\<rparr>))"

definition seekg :: "fstream \<Rightarrow> int \<Rightarrow> fstream" where
  "seekg st off =
     (if failed st then st
      else if off < 0 then st\<lparr>failed := True\<rparr>
      else st\<lparr>gpos := nat off\<rparr>)"

definition seekg_cur :: "fstream \<Rightarrow> int \<Rightarrow> fstream" where
  "seekg_cur st off =
     (if failed st then st
      else if int (gpos st) + off < 0 then st\<lparr>failed := True\<rparr>
      else st\<lparr>gpos := nat (int (gpos st) + off)\<rparr>)"

subsection \<open>Decoding\<close>

definition get_int :: "fstream \<Rightarrow> int \<Rightarrow> int \<Rightarrow> int \<times> fstream" where
  "get_int st offset bytes =
     (let st = seekg st offset;
          (result, base, st) =
            for_up 0 bytes (\<lambda>i (result, base, st).
              let (c, st) = stream_get st
              in (int32 (result + int32 (c * base)), int32 (base * 256), st))
            (0, 1, st)
      in (result, st))"

text \<open>Lines 57 to 62 of \<^verbatim>\<open>read_image\<close>: the padding of a scan line.\<close>

definition read_padding :: "int \<Rightarrow> int" where
  "read_padding scanline_size =
     (if c_mod scanline_size 4 \<noteq> 0 then 4 - c_mod scanline_size 4 else 0)"

text \<open>
  Lines 50 to 54 of \<^verbatim>\<open>read_image\<close>: the five header fields, in the order
  file size, start of the pixel array, width, height, bits per pixel.
\<close>

definition read_header :: "fstream \<Rightarrow> (int \<times> int \<times> int \<times> int \<times> int) \<times> fstream" where
  "read_header st =
     (let (file_size, st) = get_int st 2 4;
          (start, st) = get_int st 10 4;
          (width, st) = get_int st 18 4;
          (height, st) = get_int st 22 4;
          (bits_per_pixel, st) = get_int st 28 2
      in ((file_size, start, width, height, bits_per_pixel), st))"

text \<open>
  \<^verbatim>\<open>read_image\<close>. The result \<open>Inr []\<close> is the empty vector the source returns for
  an invalid file; \<open>Inl LengthError\<close> is the exception the vector constructor
  throws for a negative size. Running out of memory is not modelled.
\<close>

definition read_image :: "byte list option \<Rightarrow> fault + image" where
  "read_image file =
     (let ((file_size, start, width, height, bits_per_pixel), st) = read_header (open_in file);
          scanline_size = int32 (width * c_div bits_per_pixel 8);
          padding = read_padding scanline_size
      in if file_size \<noteq> int32 (start + int32 (int32 (scanline_size + padding) * height))
         then Inr []
         else if width < 0 \<or> height < 0 then Inl LengthError
         else
           let img = new_image_of height width;
               pos = start;
               (img, pos, st) =
                 for_down (height - 1) (\<lambda>i (img, pos, st).
                   let (img, pos, st) =
                         for_up 0 width (\<lambda>j (img, pos, st).
                           let st = seekg st pos;
                               (c, st) = stream_get st;
                               img = store_blue img i j c;
                               (c, st) = stream_get st;
                               img = store_green img i j c;
                               (c, st) = stream_get st;
                               img = store_red img i j c;
                               pos = int32 (pos + c_div bits_per_pixel 8)
                           in (img, pos, st))
                         (img, pos, st);
                       st = seekg_cur st padding;
                       pos = int32 (pos + padding)
                   in (img, pos, st))
                 (img, pos, st)
           in Inr img)"

subsection \<open>Encoding\<close>

text \<open>
  \<^verbatim>\<open>set_bytes\<close>. The cast to \<^verbatim>\<open>unsigned char\<close> keeps the low eight bits, which is
  what \<open>word_of_int\<close> does.
\<close>

definition set_bytes :: "byte list \<Rightarrow> int \<Rightarrow> int \<Rightarrow> int \<Rightarrow> byte list" where
  "set_bytes arr offset bytes val =
     for_up 0 bytes (\<lambda>i arr. arr[nat (offset + i) := word_of_int (drop_bit (nat (i * 8)) val)]) arr"

text \<open>Lines 137 to 139 of \<^verbatim>\<open>write_image\<close>: the padding of a row.\<close>

definition write_padding :: "int \<Rightarrow> int" where
  "write_padding width_bytes = c_mod (4 - c_mod width_bytes 4) 4"

text \<open>
  \<^verbatim>\<open>write_image\<close>. The first argument says whether the output file can be opened;
  the result is \<open>None\<close> where the source returns \<^verbatim>\<open>false\<close>, and the bytes
  written to the file where it returns \<^verbatim>\<open>true\<close>.
\<close>

definition write_image :: "bool \<Rightarrow> image \<Rightarrow> byte list option" where
  "write_image can_open img =
     (let width_pixels = int (length (img ! 0));
          height_pixels = int (length img);
          width_bytes = width_pixels * 3;
          padding_bytes = write_padding width_bytes;
          width_bytes = width_bytes + padding_bytes;
          array_bytes = width_bytes * height_pixels
      in if \<not> can_open then None
         else
           let bmp_header = replicate 14 0;
               dib_header = replicate 40 0;
               bmp_header = set_bytes bmp_header 0 1 66;
               bmp_header = set_bytes bmp_header 1 1 77;
               bmp_header = set_bytes bmp_header 2 4 (14 + 40 + array_bytes);
               bmp_header = set_bytes bmp_header 6 2 0;
               bmp_header = set_bytes bmp_header 8 2 0;
               bmp_header = set_bytes bmp_header 10 4 (14 + 40);
               dib_header = set_bytes dib_header 0 4 40;
               dib_header = set_bytes dib_header 4 4 width_pixels;
               dib_header = set_bytes dib_header 8 4 height_pixels;
               dib_header = set_bytes dib_header 12 2 1;
               dib_header = set_bytes dib_header 14 2 24;
               dib_header = set_bytes dib_header 16 4 0;
               dib_header = set_bytes dib_header 20 4 array_bytes;
               dib_header = set_bytes dib_header 24 4 2835;
               dib_header = set_bytes dib_header 28 4 2835;
               dib_header = set_bytes dib_header 32 4 0;
               dib_header = set_bytes dib_header 36 4 0;
               out = bmp_header @ dib_header;
               padding = [0, 0, 0];
               out = for_down (height_pixels - 1) (\<lambda>h out.
                       let out = for_up 0 width_pixels (\<lambda>w out.
                                   out @ [word_of_int (blue (img ! nat h ! nat w)),
                                          word_of_int (green (img ! nat h ! nat w)),
                                          word_of_int (red (img ! nat h ! nat w))])
                                 out
                       in out @ take (nat padding_bytes) padding)
                     out
           in Some out)"

section \<open>Auxiliary notions for the proofs\<close>

text \<open>
  The three stores of one loop body write one pixel: \<open>put\<close> is that write. The
  loops of the transforms run over all cells \<open>(row, col)\<close>; \<open>cell\<close> and
  \<open>turned\<close> are the positions they write, \<open>pixel_at\<close> and \<open>source_cell\<close> the
  positions they read.
\<close>

definition put :: "'a list list \<Rightarrow> nat \<Rightarrow> nat \<Rightarrow> 'a \<Rightarrow> 'a list list" where
  "put img i j p = img[i := (img ! i)[j := p]]"

definition cell :: "int \<times> int \<Rightarrow> nat \<times> nat" where
  "cell k = (nat (fst k), nat (snd k))"

definition turned :: "int \<Rightarrow> int \<times> int \<Rightarrow> nat \<times> nat" where
  "turned h k = (nat (snd k), nat ((h - 1) - fst k))"

definition pixel_at :: "image \<Rightarrow> int \<times> int \<Rightarrow> Pixel" where
  "pixel_at img k = img ! nat (fst k) ! nat (snd k)"


text \<open>
  The pixel computed by the loop bodies of \<^verbatim>\<open>process_3\<close>, \<^verbatim>\<open>process_7\<close> and
  \<^verbatim>\<open>process_10\<close>, and the nested loop that applies such a function to every cell.
\<close>

definition gray_px :: "Pixel \<Rightarrow> Pixel" where
  "gray_px p =
     (let gray_value = double_to_int (of_int (c_div (red p + green p + blue p) 3) + 1 / 2)
      in \<lparr>red = gray_value, green = gray_value, blue = gray_value\<rparr>)"


definition poster_px :: "Pixel \<Rightarrow> Pixel" where
  "poster_px p =
     (if red p + green p + blue p \<ge> 550 then \<lparr>red = 255, green = 255, blue = 255\<rparr>
      else if red p + green p + blue p \<le> 150 then \<lparr>red = 0, green = 0, blue = 0\<rparr>
      else if max (max (red p) (green p)) (blue p) = red p then \<lparr>red = 255, green = 0, blue = 0\<rparr>
      else if max (max (red p) (green p)) (blue p) = green p then \<lparr>red = 0, green = 255, blue = 0\<rparr>
      else \<lparr>red = 0, green = 0, blue = 255\<rparr>)"

definition pixelwise :: "(Pixel \<Rightarrow> Pixel) \<Rightarrow> image \<Rightarrow> image" where
  "pixelwise f img =
     for_up 0 (int (length img)) (\<lambda>row. for_up 0 (int (length (img ! 0))) (\<lambda>col new.
       put new (fst (cell (row, col))) (snd (cell (row, col))) (f (pixel_at img (row, col)))))
     (new_image_of (int (length img)) (int (length (img ! 0))))"


text \<open>
  The bytes \<^verbatim>\<open>write_image\<close> produces: the three bytes of a pixel, the bytes of
  one row with its padding, the little-endian fields of the two headers, and the
  whole file. \<open>pixel_offset\<close> is the position of the first byte of pixel
  \<open>(h, w)\<close> in the file.
\<close>

definition px_bytes :: "Pixel \<Rightarrow> byte list" where
  "px_bytes p = [word_of_int (blue p), word_of_int (green p), word_of_int (red p)]"

definition row_bytes :: "image \<Rightarrow> nat \<Rightarrow> byte list" where
  "row_bytes img h =
     concat (map (\<lambda>w. px_bytes (img ! h ! w)) [0..<length (img ! 0)])
       @ take (nat (write_padding (int (length (img ! 0)) * 3))) [0, 0, 0]"

definition le16 :: "int \<Rightarrow> byte list" where
  "le16 v = [word_of_int v, word_of_int (drop_bit 8 v)]"

definition le32 :: "int \<Rightarrow> byte list" where
  "le32 v = [word_of_int v, word_of_int (drop_bit 8 v),
             word_of_int (drop_bit 16 v), word_of_int (drop_bit 24 v)]"

definition header_bytes :: "int \<Rightarrow> int \<Rightarrow> int \<Rightarrow> byte list" where
  "header_bytes w h array_bytes =
     [66, 77] @ le32 (14 + 40 + array_bytes) @ [0, 0, 0, 0] @ le32 54
     @ le32 40 @ le32 w @ le32 h @ le16 1 @ le16 24 @ le32 0 @ le32 array_bytes
     @ le32 2835 @ le32 2835 @ le32 0 @ le32 0"

definition pad_of :: "image \<Rightarrow> nat" where
  "pad_of img = nat (write_padding (int (length (img ! 0)) * 3))"

definition row_len :: "image \<Rightarrow> nat" where
  "row_len img = 3 * length (img ! 0) + pad_of img"

definition pixel_offset :: "image \<Rightarrow> nat \<Rightarrow> nat \<Rightarrow> nat" where
  "pixel_offset img h w = 54 + (length img - 1 - h) * row_len img + 3 * w"

definition encoded :: "image \<Rightarrow> byte list" where
  "encoded img =
     header_bytes (int (length (img ! 0))) (int (length img))
       ((int (length (img ! 0)) * 3 + write_padding (int (length (img ! 0)) * 3))
          * int (length img))
     @ concat (map (row_bytes img) (rev [0..<length img]))"

text \<open>
  A stream in good state reads the bytes \<open>bs\<close> and has not failed. \<open>decode_px\<close>
  is the pixel \<^verbatim>\<open>read_image\<close> builds from the three bytes at a position.
\<close>

definition good :: "byte list \<Rightarrow> fstream \<Rightarrow> bool" where
  "good bs st \<longleftrightarrow> content st = bs \<and> \<not> failed st"

definition decode_px :: "byte list \<Rightarrow> nat \<Rightarrow> Pixel" where
  "decode_px bs k = \<lparr>red = uint (bs ! (k + 2)), green = uint (bs ! (k + 1)), blue = uint (bs ! k)\<rparr>"


text \<open>
  The bodies of the two loops of \<^verbatim>\<open>read_image\<close>, named, and the images they
  produce on a stream in good state: \<open>fill_row\<close> for one row read from position
  \<open>p\<close>, \<open>fill_rows\<close> for a list of rows read one after the other, each
  \<open>rl\<close> bytes long.
\<close>

definition pixel_step ::
  "int \<Rightarrow> int \<Rightarrow> int \<Rightarrow> image \<times> int \<times> fstream \<Rightarrow> image \<times> int \<times> fstream" where
  "pixel_step bits_per_pixel i j =
     (\<lambda>(img, pos, st).
        let st = seekg st pos;
            (c, st) = stream_get st;
            img = store_blue img i j c;
            (c, st) = stream_get st;
            img = store_green img i j c;
            (c, st) = stream_get st;
            img = store_red img i j c;
            pos = int32 (pos + c_div bits_per_pixel 8)
        in (img, pos, st))"

definition row_step ::
  "int \<Rightarrow> int \<Rightarrow> int \<Rightarrow> int \<Rightarrow> image \<times> int \<times> fstream \<Rightarrow> image \<times> int \<times> fstream" where
  "row_step bits_per_pixel padding width i =
     (\<lambda>(img, pos, st).
        let (img, pos, st) = for_up 0 width (pixel_step bits_per_pixel i) (img, pos, st);
            st = seekg_cur st padding;
            pos = int32 (pos + padding)
        in (img, pos, st))"

definition fill_row :: "byte list \<Rightarrow> nat \<Rightarrow> nat \<Rightarrow> nat \<Rightarrow> image \<Rightarrow> image" where
  "fill_row bs n i p img =
     fold (\<lambda>j img. put img (fst (i, j)) (snd (i, j)) (decode_px bs (p + 3 * j))) [0..<n] img"

fun fill_rows :: "byte list \<Rightarrow> nat \<Rightarrow> nat \<Rightarrow> nat list \<Rightarrow> nat \<Rightarrow> image \<Rightarrow> image" where
  "fill_rows bs n rl [] p img = img"
| "fill_rows bs n rl (i # rows) p img = fill_rows bs n rl rows (p + rl) (fill_row bs n i p img)"

text \<open>
  The grids of the round trip: every channel is a byte value, and the width, the
  height and the size of the encoded file fit the 32-bit \<^verbatim>\<open>int\<close> in which
  \<^verbatim>\<open>write_image\<close> and \<^verbatim>\<open>read_image\<close> compute them.
\<close>

definition channels_in_range :: "image \<Rightarrow> bool" where
  "channels_in_range img \<longleftrightarrow>
     (\<forall>row \<in> set img. \<forall>p \<in> set row.
        0 \<le> red p \<and> red p \<le> 255 \<and> 0 \<le> green p \<and> green p \<le> 255
      \<and> 0 \<le> blue p \<and> blue p \<le> 255)"

definition sizes_fit_int :: "image \<Rightarrow> bool" where
  "sizes_fit_int img \<longleftrightarrow>
     int (length img) < 2 ^ 31 \<and> int (length (img ! 0)) < 2 ^ 31
     \<and> 14 + 40 + (int (length (img ! 0)) * 3 + write_padding (int (length (img ! 0)) * 3))
                    * int (length img) < 2 ^ 31"

section \<open>Writing pixels in nested loops\<close>

lemma pixel_overwrite:
  "(p :: Pixel)\<lparr>red := x, green := y, blue := z\<rparr> = \<lparr>red = x, green = y, blue = z\<rparr>"
  by (cases p) simp

lemma put_beyond:
  "\<not> (i < length img \<and> j < length (img ! i)) \<Longrightarrow> put img i j p = img"
proof (cases "i < length img")
  case True
  assume "\<not> (i < length img \<and> j < length (img ! i))"
  with True have "(img ! i)[j := p] = img ! i" by (simp add: list_update_beyond)
  then show ?thesis by (simp add: put_def)
next
  case False
  then show ?thesis by (simp add: put_def list_update_beyond)
qed

lemma store_rgb:
  "store_blue (store_green (store_red img i j x) i j y) i j z =
     put img (nat i) (nat j) \<lparr>red = x, green = y, blue = z\<rparr>"
proof (cases "nat i < length img \<and> nat j < length (img ! nat i)")
  case True
  then show ?thesis
    by (simp add: store_red_def store_green_def store_blue_def put_def pixel_overwrite)
next
  case False
  have r: "store_red img i j x = img"
    using put_beyond [OF False] by (simp add: store_red_def put_def)
  have g: "store_green img i j y = img"
    using put_beyond [OF False] by (simp add: store_green_def put_def)
  have b: "store_blue img i j z = img"
    using put_beyond [OF False] by (simp add: store_blue_def put_def)
  show ?thesis by (simp add: r g b put_beyond [OF False])
qed

lemma map_length_put: "map length (put img i j p) = map length img"
  unfolding put_def
proof (rule nth_equalityI)
  show "length (map length (img[i := (img ! i)[j := p]])) = length (map length img)" by simp
next
  fix k assume "k < length (map length (img[i := (img ! i)[j := p]]))"
  then show "map length (img[i := (img ! i)[j := p]]) ! k = map length img ! k"
    by (cases "k = i") simp_all
qed

lemma nth_put:
  "i < length img \<Longrightarrow> j < length (img ! i) \<Longrightarrow> put img i j p ! i ! j = p"
  by (simp add: put_def)

lemma nth_put_other:
  "(a, b) \<noteq> (i, j) \<Longrightarrow> put img i j p ! a ! b = img ! a ! b"
  by (cases "a = i"; cases "i < length img") (auto simp: put_def list_update_beyond)

lemma fold_product:
  "fold (\<lambda>r. fold (\<lambda>c. F r c) cs) rs s = fold (\<lambda>(r, c). F r c) (List.product rs cs) s"
  by (induction rs arbitrary: s) (simp_all add: fold_map comp_def)

lemma upto_as_upt: "[0..int n - 1] = map int [0..<n]"
proof (induction n)
  case 0
  then show ?case by simp
next
  case (Suc n)
  have "[0..int (Suc n) - 1] = [0..int n - 1] @ [int n]"
    using upto_rec2 [of 0 "int n"] by simp
  with Suc show ?case by simp
qed

lemma fold_put_lengths:
  "map length (fold (\<lambda>k img. put img (fst (pos k)) (snd (pos k)) (v k)) ks img) = map length img"
  by (induction ks arbitrary: img) (simp_all add: map_length_put)

lemma fold_put_nth:
  assumes "inj_on pos (set ks)" and "k \<in> set ks"
    and "fst (pos k) < length img" and "snd (pos k) < length (img ! fst (pos k))"
  shows "fold (\<lambda>k img. put img (fst (pos k)) (snd (pos k)) (v k)) ks img
           ! fst (pos k) ! snd (pos k) = v k"
  using assms(1,2)
proof (induction ks rule: rev_induct)
  case Nil
  then show ?case by simp
next
  case (snoc x xs)
  let ?st = "fold (\<lambda>k img. put img (fst (pos k)) (snd (pos k)) (v k)) xs img"
  have len: "map length ?st = map length img" by (rule fold_put_lengths)
  have l1: "length ?st = length img"
    using arg_cong [OF len, of length] by simp
  have l2: "length (?st ! fst (pos k)) = length (img ! fst (pos k))"
    using arg_cong [OF len, of "\<lambda>ls. ls ! fst (pos k)"] assms(3) l1 by simp
  have unfold: "fold (\<lambda>k img. put img (fst (pos k)) (snd (pos k)) (v k)) (xs @ [x]) img
      = put ?st (fst (pos x)) (snd (pos x)) (v x)"
    by simp
  show ?case
  proof (cases "pos k = pos x")
    case True
    have kx: "k = x"
      by (rule inj_onD [OF snoc.prems(1) True snoc.prems(2)]) simp
    have "put ?st (fst (pos k)) (snd (pos k)) (v k) ! fst (pos k) ! snd (pos k) = v k"
      by (rule nth_put) (simp_all only: l1 l2 assms(3,4))
    then show ?thesis unfolding unfold kx .
  next
    case False
    with snoc.prems(2) have kin: "k \<in> set xs" by auto
    from snoc.prems(1) have inj: "inj_on pos (set xs)" by (simp add: inj_on_def)
    have ih: "?st ! fst (pos k) ! snd (pos k) = v k"
      by (rule snoc.IH [OF inj kin])
    have ne: "(fst (pos k), snd (pos k)) \<noteq> (fst (pos x), snd (pos x))"
      using False by (simp add: prod_eq_iff)
    show ?thesis unfolding unfold nth_put_other [OF ne] by (rule ih)
  qed
qed

lemma pixel_eta: "\<lparr>red = red p, green = green p, blue = blue p\<rparr> = (p :: Pixel)"
  by (cases p) simp

lemma nested_loop_fold:
  "for_up 0 h (\<lambda>row. for_up 0 w (\<lambda>col new.
       put new (fst (pos (row, col))) (snd (pos (row, col))) (v (row, col)))) img0
   = fold (\<lambda>k new. put new (fst (pos k)) (snd (pos k)) (v k))
       (List.product [0..h - 1] [0..w - 1]) img0"
  unfolding for_up_def fold_product by (simp add: split_def)

lemma nested_loop_lengths:
  "map length (for_up 0 h (\<lambda>row. for_up 0 w (\<lambda>col new.
       put new (fst (pos (row, col))) (snd (pos (row, col))) (v (row, col)))) img0)
   = map length img0"
  unfolding nested_loop_fold by (rule fold_put_lengths)

lemma nested_loop_nth:
  assumes "0 \<le> row" "row < h" "0 \<le> col" "col < w"
    and "inj_on pos ({0..h - 1} \<times> {0..w - 1})"
    and "fst (pos (row, col)) < length img0"
    and "snd (pos (row, col)) < length (img0 ! fst (pos (row, col)))"
  shows "for_up 0 h (\<lambda>row. for_up 0 w (\<lambda>col new.
       put new (fst (pos (row, col))) (snd (pos (row, col))) (v (row, col)))) img0
     ! fst (pos (row, col)) ! snd (pos (row, col)) = v (row, col)"
  unfolding nested_loop_fold
proof (rule fold_put_nth)
  show "inj_on pos (set (List.product [0..h - 1] [0..w - 1]))"
    using assms(5) by simp
  show "(row, col) \<in> set (List.product [0..h - 1] [0..w - 1])"
    using assms(1-4) by simp
qed (rule assms)+

lemma inj_on_cell: "inj_on cell ({0..h} \<times> {0..w})"
  by (auto simp: inj_on_def cell_def)

lemma inj_on_turned: "inj_on (turned h) ({0..h - 1} \<times> {0..w})"
  by (auto simp: inj_on_def turned_def)

lemma new_image_of_lengths: "map length (new_image_of (int h) (int w)) = replicate h w"
  by (simp add: new_image_of_def)

lemma lengths_replicate:
  "map length xs = replicate h w \<Longrightarrow> length xs = h \<and> (\<forall>row \<in> set xs. length row = w)"
  by (metis in_set_replicate length_map length_replicate imageI set_map)

section \<open>Rotation by a quarter turn\<close>

lemma process_4_loops:
  "process_4 img =
     for_up 0 (int (length img)) (\<lambda>row. for_up 0 (int (length (img ! 0))) (\<lambda>col new.
       put new (fst (turned (int (length img)) (row, col)))
               (snd (turned (int (length img)) (row, col))) (pixel_at img (row, col))))
     (new_image_of (int (length (img ! 0))) (int (length img)))"
  by (simp add: process_4_def Let_def store_rgb turned_def pixel_at_def pixel_eta)

lemma process_4_lengths:
  "map length (process_4 img) = replicate (length (img ! 0)) (length img)"
  unfolding process_4_loops nested_loop_lengths by (rule new_image_of_lengths)

lemma process_4_nth:
  assumes "rectangular img" "r < length img" "c < length (img ! 0)"
  shows "process_4 img ! c ! (length img - 1 - r) = img ! r ! c"
proof -
  let ?h = "int (length img)" and ?w = "int (length (img ! 0))"
  have pos: "turned ?h (int r, int c) = (c, length img - 1 - r)"
    using assms(2) by (simp add: turned_def nat_diff_distrib')
  have "for_up 0 ?h (\<lambda>row. for_up 0 ?w (\<lambda>col new.
       put new (fst (turned ?h (row, col))) (snd (turned ?h (row, col))) (pixel_at img (row, col))))
     (new_image_of ?w ?h)
     ! fst (turned ?h (int r, int c)) ! snd (turned ?h (int r, int c)) = pixel_at img (int r, int c)"
  proof (rule nested_loop_nth)
    show "inj_on (turned ?h) ({0..?h - 1} \<times> {0..?w - 1})" by (rule inj_on_turned)
    show "fst (turned ?h (int r, int c)) < length (new_image_of ?w ?h)"
      using assms(3) by (simp add: pos new_image_of_def)
    show "snd (turned ?h (int r, int c))
        < length (new_image_of ?w ?h ! fst (turned ?h (int r, int c)))"
      using assms(2,3) by (simp add: pos new_image_of_def)
  qed (use assms in simp_all)
  then show ?thesis
    unfolding process_4_loops [symmetric] pos by (simp add: pixel_at_def)
qed

text \<open>
  C7. For a non-empty rectangular grid of height \<open>H\<close> and width \<open>W\<close>, the result of
  \<^verbatim>\<open>process_4\<close> (Rotate90) has \<open>W\<close> rows of \<open>H\<close> pixels, and the pixel of the
  input at \<open>(r, c)\<close> is the pixel of the result at \<open>(c, H - 1 - r)\<close>.
\<close>

theorem process_4_index_map:
  assumes "rectangular img"
  shows "length (process_4 img) = length (img ! 0)
       \<and> (\<forall>row \<in> set (process_4 img). length row = length img)
       \<and> (\<forall>r < length img. \<forall>c < length (img ! 0).
             process_4 img ! c ! (length img - 1 - r) = img ! r ! c)"
  using lengths_replicate [OF process_4_lengths [of img]] process_4_nth [OF assms]
  by blast

theorem process_4_index_map_witness:
  "rectangular [[\<lparr>red = 1, green = 2, blue = 3\<rparr>, \<lparr>red = 4, green = 5, blue = 6\<rparr>]]
   \<and> process_4 [[\<lparr>red = 1, green = 2, blue = 3\<rparr>, \<lparr>red = 4, green = 5, blue = 6\<rparr>]] ! 1 ! 0
       = \<lparr>red = 4, green = 5, blue = 6\<rparr>"
  using process_4_index_map [of "[[\<lparr>red = 1, green = 2, blue = 3\<rparr>, \<lparr>red = 4, green = 5, blue = 6\<rparr>]]"]
  by (simp add: rectangular_def)

section \<open>Enlargement\<close>

lemma c_div_nonneg: "0 \<le> a \<Longrightarrow> 0 < b \<Longrightarrow> c_div a b = a div b"
  by (cases "a = 0") (simp_all add: c_div_def)

lemma c_mod_nonneg: "0 \<le> a \<Longrightarrow> 0 < b \<Longrightarrow> c_mod a b = a mod b"
  by (simp add: c_mod_def c_div_nonneg minus_div_mult_eq_mod)

lemma double_to_int_half: "0 \<le> q \<Longrightarrow> double_to_int (of_int q + 1 / 2) = q"
proof -
  assume "0 \<le> q"
  then have "(0::real) \<le> of_int q + 1 / 2" by simp
  moreover have "\<lfloor>of_int q + (1 / 2 :: real)\<rfloor> = q" by (rule floor_unique) simp_all
  ultimately show ?thesis by (simp add: double_to_int_def)
qed





lemma rectangular_row:
  "rectangular img \<Longrightarrow> r < length img \<Longrightarrow> length (img ! r) = length (img ! 0)"
  unfolding rectangular_def using nth_mem by blast





section \<open>Pixelwise transforms\<close>

lemma pixelwise_lengths:
  "map length (pixelwise f img) = replicate (length img) (length (img ! 0))"
  unfolding pixelwise_def by (rule trans [OF nested_loop_lengths new_image_of_lengths])

lemma pixelwise_nth:
  assumes "r < length img" "c < length (img ! 0)"
  shows "pixelwise f img ! r ! c = f (img ! r ! c)"
proof -
  let ?h = "int (length img)" and ?w = "int (length (img ! 0))"
  have pos: "cell (int r, int c) = (r, c)" by (simp add: cell_def)
  have "pixelwise f img ! fst (cell (int r, int c)) ! snd (cell (int r, int c))
      = f (pixel_at img (int r, int c))"
    unfolding pixelwise_def
  proof (rule nested_loop_nth)
    show "inj_on cell ({0..?h - 1} \<times> {0..?w - 1})" by (rule inj_on_cell)
    show "fst (cell (int r, int c)) < length (new_image_of ?h ?w)"
      using assms by (simp add: pos new_image_of_def)
    show "snd (cell (int r, int c)) < length (new_image_of ?h ?w ! fst (cell (int r, int c)))"
      using assms by (simp add: pos new_image_of_def)
  qed (use assms in simp_all)
  then show ?thesis unfolding pos by (simp add: pixel_at_def)
qed

lemma process_3_pixelwise: "process_3 img = pixelwise gray_px img"
  by (simp add: process_3_def pixelwise_def Let_def store_rgb cell_def pixel_at_def gray_px_def)


lemma poster_body:
  "(case (if A then (255, 255, 255) else if B then (0, 0, 0) else if C then (255, 0, 0)
          else if D then (0, 255, 0) else (0, 0, 255)) of
      (nr, ng, nb) \<Rightarrow> put new i j \<lparr>red = nr, green = ng, blue = nb\<rparr>)
   = put new i j (if A then \<lparr>red = 255, green = 255, blue = 255\<rparr>
                  else if B then \<lparr>red = 0, green = 0, blue = 0\<rparr>
                  else if C then \<lparr>red = 255, green = 0, blue = 0\<rparr>
                  else if D then \<lparr>red = 0, green = 255, blue = 0\<rparr>
                  else \<lparr>red = 0, green = 0, blue = 255\<rparr>)"
  by simp


lemma process_10_pixelwise: "process_10 img = pixelwise poster_px img"
  by (simp add: process_10_def pixelwise_def Let_def store_rgb cell_def pixel_at_def poster_px_def
      poster_body)

section \<open>The bytes of an encoded image\<close>

lemma upto_rev_as_upt: "rev [0..int n - 1] = map int (rev [0..<n])"
  by (simp add: upto_as_upt rev_map)

lemma fold_append_out: "fold (\<lambda>x out. out @ f x) xs out = out @ concat (map f xs)"
  by (induction xs arbitrary: out) simp_all

lemma upto_0_1: "[0..1] = [0, 1]" "[0..3] = [0, 1, 2, 3]" "[0..0] = [0]"
  by code_simp+

lemma set_bytes_1: "set_bytes arr off 1 v = arr[nat off := word_of_int v]"
  by (simp add: set_bytes_def for_up_def upto_0_1)

lemma set_bytes_2:
  "0 \<le> off \<Longrightarrow> set_bytes arr off 2 v =
     arr[nat off := word_of_int v, nat off + 1 := word_of_int (drop_bit 8 v)]"
  by (simp add: set_bytes_def for_up_def upto_0_1 nat_add_distrib)

lemma set_bytes_4:
  "0 \<le> off \<Longrightarrow> set_bytes arr off 4 v =
     arr[nat off := word_of_int v, nat off + 1 := word_of_int (drop_bit 8 v),
         nat off + 2 := word_of_int (drop_bit 16 v), nat off + 3 := word_of_int (drop_bit 24 v)]"
  by (simp add: set_bytes_def for_up_def upto_0_1 nat_add_distrib)

lemma bmp_header_eq:
  "set_bytes (set_bytes (set_bytes (set_bytes (set_bytes (set_bytes (replicate 14 0)
      0 1 66) 1 1 77) 2 4 fs) 6 2 0) 8 2 0) 10 4 (14 + 40)
   = [66, 77] @ le32 fs @ [0, 0, 0, 0] @ le32 54"
  by (simp add: set_bytes_1 set_bytes_2 set_bytes_4 eval_nat_numeral le32_def)

lemma dib_header_eq:
  "set_bytes (set_bytes (set_bytes (set_bytes (set_bytes (set_bytes (set_bytes (set_bytes
     (set_bytes (set_bytes (set_bytes (replicate 40 0)
      0 4 40) 4 4 w) 8 4 h) 12 2 1) 14 2 24) 16 4 0) 20 4 ab) 24 4 2835) 28 4 2835) 32 4 0) 36 4 0
   = le32 40 @ le32 w @ le32 h @ le16 1 @ le16 24 @ le32 0 @ le32 ab
     @ le32 2835 @ le32 2835 @ le32 0 @ le32 0"
  by (simp add: set_bytes_2 set_bytes_4 eval_nat_numeral le32_def le16_def)

lemma pixel_rows_eq:
  "for_down (int H - 1) (\<lambda>h out.
       let out = for_up 0 (int W) (\<lambda>w out. out @ px (nat h) (nat w)) out
       in out @ pad) out0
   = out0 @ concat (map (\<lambda>h. concat (map (px h) [0..<W]) @ pad) (rev [0..<H]))"
proof -
  have inner: "for_up 0 (int W) (\<lambda>w out. out @ px h (nat w)) out
      = out @ concat (map (px h) [0..<W])" for h out
    unfolding for_up_def upto_as_upt
    by (simp add: fold_map comp_def fold_append_out [where f = "px h"])
  show ?thesis
    unfolding for_down_def Let_def inner upto_rev_as_upt
    by (simp add: fold_map comp_def
        fold_append_out [where f = "\<lambda>h. concat (map (px h) [0..<W]) @ pad"])
qed

lemma write_image_bytes:
  "write_image True img =
     Some (header_bytes (int (length (img ! 0))) (int (length img))
             ((int (length (img ! 0)) * 3 + write_padding (int (length (img ! 0)) * 3))
                * int (length img))
           @ concat (map (row_bytes img) (rev [0..<length img])))"
proof -
  have rows: "for_down (int (length img) - 1) (\<lambda>h out.
       for_up 0 (int (length (img ! 0)))
                   (\<lambda>w out. out @ [word_of_int (blue (img ! nat h ! nat w)),
                                     word_of_int (green (img ! nat h ! nat w)),
                                     word_of_int (red (img ! nat h ! nat w))]) out
       @ pad) out0
    = out0 @ concat (map (\<lambda>h. concat (map (\<lambda>w. px_bytes (img ! h ! w)) [0..<length (img ! 0)]) @ pad)
                 (rev [0..<length img]))" for pad out0
    using pixel_rows_eq [where px = "\<lambda>h w. px_bytes (img ! h ! w)"]
    by (simp add: px_bytes_def Let_def)
  show ?thesis
    unfolding write_image_def Let_def bmp_header_eq dib_header_eq rows
    by (simp add: header_bytes_def row_bytes_def [abs_def])
qed

lemma concat_uniform_length:
  "(\<forall>x \<in> set xs. length (f x) = n) \<Longrightarrow> length (concat (map f xs)) = length xs * n"
  by (induction xs) simp_all

lemma concat_uniform_nth:
  "(\<forall>x \<in> set xs. length (f x) = n) \<Longrightarrow> k < length xs \<Longrightarrow> m < n
     \<Longrightarrow> concat (map f xs) ! (k * n + m) = f (xs ! k) ! m"
proof (induction xs arbitrary: k)
  case Nil
  then show ?case by simp
next
  case (Cons x xs)
  show ?case
  proof (cases k)
    case 0
    with Cons.prems show ?thesis by (simp add: nth_append)
  next
    case (Suc j)
    have "concat (map f (x # xs)) ! (k * n + m) = concat (map f xs) ! (j * n + m)"
      using Cons.prems Suc by (simp add: nth_append)
    also have "\<dots> = f (xs ! j) ! m"
      using Cons.prems Suc by (intro Cons.IH) simp_all
    finally show ?thesis using Suc by simp
  qed
qed

lemma write_padding_nonneg: "0 \<le> s \<Longrightarrow> write_padding s = (4 - s mod 4) mod 4"
proof -
  assume s: "0 \<le> s"
  have "0 \<le> 4 - s mod 4" by (smt (verit) pos_mod_bound)
  then show ?thesis using s by (simp add: write_padding_def c_mod_nonneg)
qed

lemma read_padding_nonneg:
  "0 \<le> s \<Longrightarrow> read_padding s = (4 - s mod 4) mod 4"
proof -
  assume s: "0 \<le> s"
  have "s mod 4 = 0 \<or> s mod 4 = 1 \<or> s mod 4 = 2 \<or> s mod 4 = 3" by presburger
  then show ?thesis using s by (auto simp: read_padding_def c_mod_nonneg)
qed

lemma padding_range: "0 \<le> (4 - s mod 4) mod 4 \<and> (4 - s mod 4) mod 4 \<le> (3::int)"
  by presburger

lemma padding_aligns: "(s + (4 - s mod 4) mod 4) mod 4 = (0::int)"
  by presburger

lemma padding_least: "0 \<le> p \<Longrightarrow> (s + p) mod 4 = 0 \<Longrightarrow> (4 - s mod 4) mod 4 \<le> (p::int)"
  by presburger

lemma write_image_encoded: "write_image True img = Some (encoded img)"
  unfolding encoded_def by (rule write_image_bytes)

lemma length_header_bytes: "length (header_bytes w h ab) = 54"
  by (simp add: header_bytes_def le32_def le16_def)

lemma pad_of_le: "pad_of img \<le> 3"
  using padding_range [of "int (length (img ! 0)) * 3"]
  by (simp add: pad_of_def write_padding_nonneg)

lemma length_px_row:
  "length (concat (map (\<lambda>w. px_bytes (img ! h ! w)) [0..<n])) = n * 3"
  using concat_uniform_length [of "[0..<n]" "\<lambda>w. px_bytes (img ! h ! w)" 3]
  by (simp add: px_bytes_def)

lemma length_row_bytes: "length (row_bytes img h) = row_len img"
  using pad_of_le [of img]
  by (simp add: row_bytes_def row_len_def length_px_row pad_of_def [symmetric])

lemma row_bytes_nth:
  assumes "w < length (img ! 0)" "t < 3"
  shows "row_bytes img h ! (3 * w + t) = px_bytes (img ! h ! w) ! t"
proof -
  let ?f = "\<lambda>w. px_bytes (img ! h ! w)"
  have lt: "3 * w + t < length (concat (map ?f [0..<length (img ! 0)]))"
    using assms unfolding length_px_row by simp
  have "concat (map ?f [0..<length (img ! 0)]) ! (w * 3 + t) = ?f ([0..<length (img ! 0)] ! w) ! t"
    by (rule concat_uniform_nth) (use assms in \<open>simp_all add: px_bytes_def\<close>)
  then show ?thesis
    using lt assms(1) by (simp add: row_bytes_def nth_append mult.commute)
qed

lemma length_encoded: "length (encoded img) = 54 + length img * row_len img"
  using concat_uniform_length [of "rev [0..<length img]" "row_bytes img" "row_len img"]
  by (simp add: encoded_def length_header_bytes length_row_bytes)

lemma encoded_row_nth:
  assumes "h < length img" "m < row_len img"
  shows "encoded img ! (54 + (length img - 1 - h) * row_len img + m) = row_bytes img h ! m"
proof -
  let ?rows = "rev [0..<length img]"
  have k: "length img - 1 - h < length ?rows" using assms(1) by simp
  have "concat (map (row_bytes img) ?rows) ! ((length img - 1 - h) * row_len img + m)
      = row_bytes img (?rows ! (length img - 1 - h)) ! m"
    by (rule concat_uniform_nth [OF _ k assms(2)]) (simp add: length_row_bytes)
  moreover have "?rows ! (length img - 1 - h) = h"
    using assms(1) by (simp add: rev_nth)
  ultimately show ?thesis
    by (simp add: encoded_def nth_append length_header_bytes add.assoc)
qed

lemma encoded_pixel_nth:
  assumes "h < length img" "w < length (img ! 0)" "t < 3"
  shows "encoded img ! (pixel_offset img h w + t) = px_bytes (img ! h ! w) ! t"
proof -
  have m: "3 * w + t < row_len img" using assms(2,3) by (simp add: row_len_def)
  show ?thesis
    using encoded_row_nth [OF assms(1) m] row_bytes_nth [OF assms(2,3), of h]
    by (simp add: pixel_offset_def add.assoc)
qed

text \<open>
  C3, as stated, fails for width 3: a row of 9 bytes gets 3 bytes of padding, not
  1, in \<^verbatim>\<open>read_image\<close> and in \<^verbatim>\<open>write_image\<close>.
\<close>

theorem row_padding_counterexample:
  "read_padding (3 * c_div 24 8) \<noteq> 1 \<and> write_padding (3 * 3) \<noteq> 1"
  by (simp add: read_padding_def write_padding_def c_mod_def c_div_def)

text \<open>
  C3, amended. At 24 bits per pixel a row of width 3 (9 bytes) gets padding 3 and
  a row of width 4 (12 bytes) padding 0, in \<^verbatim>\<open>read_image\<close> and in
  \<^verbatim>\<open>write_image\<close>; for every non-negative row size both compute the same
  padding, the least non-negative number that makes row size plus padding a
  multiple of 4.
\<close>

theorem row_padding:
  assumes "0 \<le> s"
  shows "read_padding (3 * c_div 24 8) = 3 \<and> write_padding (3 * 3) = 3
       \<and> read_padding (4 * c_div 24 8) = 0 \<and> write_padding (4 * 3) = 0
       \<and> read_padding s = write_padding s
       \<and> 0 \<le> read_padding s \<and> (s + read_padding s) mod 4 = 0
       \<and> (\<forall>p. 0 \<le> p \<and> (s + p) mod 4 = 0 \<longrightarrow> read_padding s \<le> p)"
proof -
  have v1: "read_padding (3 * c_div 24 8) = 3"
    by (simp add: read_padding_def c_mod_def c_div_def)
  have v2: "write_padding (3 * 3) = 3"
    by (simp add: write_padding_def c_mod_def c_div_def)
  have v3: "read_padding (4 * c_div 24 8) = 0"
    by (simp add: read_padding_def c_mod_def c_div_def)
  have v4: "write_padding (4 * 3) = 0"
    by (simp add: write_padding_def c_mod_def c_div_def)
  have r: "read_padding s = (4 - s mod 4) mod 4"
    by (rule read_padding_nonneg [OF assms])
  have e: "read_padding s = write_padding s"
    unfolding r write_padding_nonneg [OF assms] ..
  have n: "0 \<le> read_padding s"
    unfolding r by (rule conjunct1 [OF padding_range])
  have m: "(s + read_padding s) mod 4 = 0"
    unfolding r by (rule padding_aligns)
  have l: "\<forall>p. 0 \<le> p \<and> (s + p) mod 4 = 0 \<longrightarrow> read_padding s \<le> p"
    unfolding r by (intro allI impI) (erule conjE, rule padding_least)
  show ?thesis
    by (intro conjI) (rule v1 v2 v3 v4 e n m l)+
qed

theorem row_padding_witness:
  "(0::int) \<le> 9 \<and> read_padding 9 = 3 \<and> write_padding 9 = 3 \<and> (9 + read_padding 9) mod 4 = 0"
  using row_padding [of 9] by simp

lemma encoded_channel_bytes:
  assumes "h < length img" "w < length (img ! 0)"
  shows "uint (encoded img ! pixel_offset img h w) = blue (img ! h ! w) mod 256
       \<and> uint (encoded img ! (pixel_offset img h w + 1)) = green (img ! h ! w) mod 256
       \<and> uint (encoded img ! (pixel_offset img h w + 2)) = red (img ! h ! w) mod 256"
  using encoded_pixel_nth [OF assms, of 0] encoded_pixel_nth [OF assms, of 1]
    encoded_pixel_nth [OF assms, of 2]
  by (simp add: px_bytes_def uint_word_of_int)

text \<open>
  C10. For a non-empty rectangular grid \<^verbatim>\<open>write_image\<close> succeeds, and the bytes
  it writes for the pixel at \<open>(h, w)\<close> are the blue, green and red channel values
  modulo 256, whatever the values are: nothing is clamped and nothing rejected.
  For the one-pixel grid with red channel 256 the byte written for red, at
  position 56 of the file, is 0.
\<close>

theorem write_image_wraps:
  assumes "rectangular img"
  shows "(\<exists>out. write_image True img = Some out
          \<and> (\<forall>h < length img. \<forall>w < length (img ! 0).
                uint (out ! pixel_offset img h w) = blue (img ! h ! w) mod 256
              \<and> uint (out ! (pixel_offset img h w + 1)) = green (img ! h ! w) mod 256
              \<and> uint (out ! (pixel_offset img h w + 2)) = red (img ! h ! w) mod 256))
       \<and> (\<exists>out. write_image True [[\<lparr>red = 256, green = 0, blue = 0\<rparr>]] = Some out
              \<and> out ! 56 = 0)"
proof
  show "\<exists>out. write_image True img = Some out
          \<and> (\<forall>h < length img. \<forall>w < length (img ! 0).
                uint (out ! pixel_offset img h w) = blue (img ! h ! w) mod 256
              \<and> uint (out ! (pixel_offset img h w + 1)) = green (img ! h ! w) mod 256
              \<and> uint (out ! (pixel_offset img h w + 2)) = red (img ! h ! w) mod 256)"
    using write_image_encoded [of img] encoded_channel_bytes [of _ img] by blast
next
  let ?g = "[[\<lparr>red = 256, green = 0, blue = 0\<rparr>]]"
  have o: "pixel_offset ?g 0 0 + 2 = 56" by (simp add: pixel_offset_def)
  have "uint (encoded ?g ! (pixel_offset ?g 0 0 + 2)) = red (?g ! 0 ! 0) mod 256"
    using encoded_channel_bytes [of 0 ?g 0] by simp
  then have "uint (encoded ?g ! 56) = 0" unfolding o by simp
  then have "encoded ?g ! 56 = 0" by (simp add: uint_0_iff)
  then show "\<exists>out. write_image True ?g = Some out \<and> out ! 56 = 0"
    using write_image_encoded [of ?g] by blast
qed

theorem write_image_wraps_witness:
  "rectangular [[\<lparr>red = 255, green = 0, blue = 300\<rparr>]]
   \<and> (\<exists>out. write_image True [[\<lparr>red = 255, green = 0, blue = 300\<rparr>]] = Some out
         \<and> uint (out ! 54) = 44)"
proof -
  let ?g = "[[\<lparr>red = 255, green = 0, blue = 300\<rparr>]]"
  have r: "rectangular ?g" by (simp add: rectangular_def)
  have o: "pixel_offset ?g 0 0 = 54" by (simp add: pixel_offset_def)
  from write_image_wraps [OF r] obtain out where
    "write_image True ?g = Some out" "uint (out ! pixel_offset ?g 0 0) = blue (?g ! 0 ! 0) mod 256"
    by auto
  then show ?thesis using r unfolding o by auto
qed

section \<open>Decoding an encoded image\<close>

lemma good_open: "good bs (open_in (Some bs))"
  by (simp add: good_def open_in_def)

lemma good_gpos: "good bs st \<Longrightarrow> good bs (st\<lparr>gpos := k\<rparr>)"
  by (simp add: good_def)

lemma seekg_good: "good bs st \<Longrightarrow> 0 \<le> off \<Longrightarrow> seekg st off = st\<lparr>gpos := nat off\<rparr>"
  by (simp add: good_def seekg_def)

lemma seekg_cur_good:
  "good bs st \<Longrightarrow> 0 \<le> off \<Longrightarrow> seekg_cur st off = st\<lparr>gpos := nat (int (gpos st) + off)\<rparr>"
  by (simp add: good_def seekg_cur_def)

lemma stream_get_good:
  "good bs st \<Longrightarrow> gpos st < length bs
     \<Longrightarrow> stream_get st = (uint (bs ! gpos st), st\<lparr>gpos := gpos st + 1\<rparr>)"
  by (auto simp: good_def stream_get_def)

lemma stream_get_at:
  "good bs st \<Longrightarrow> k < length bs
     \<Longrightarrow> stream_get (st\<lparr>gpos := k\<rparr>) = (uint (bs ! k), st\<lparr>gpos := Suc k\<rparr>)"
  by (auto simp: good_def stream_get_def)

lemma int32_id: "- (2 ^ 31) \<le> x \<Longrightarrow> x < 2 ^ 31 \<Longrightarrow> int32 x = x"
  unfolding int32_def by (rule signed_take_bit_int_eq_self) simp_all

lemma int32_idem: "int32 (int32 x) = int32 x"
  by (simp add: int32_def)

lemma int32_add_left: "int32 (int32 a + b) = int32 (a + b)"
  unfolding int32_def
  using signed_take_bit_add [of 31 "signed_take_bit 31 a" b, symmetric]
    signed_take_bit_add [of 31 a b]
  by simp

lemma int32_add_right: "int32 (a + int32 b) = int32 (a + b)"
  using int32_add_left [of b a] by (simp add: add.commute)

lemma int32_mult_right: "int32 (a * int32 b) = int32 (a * b)"
  unfolding int32_def
  using signed_take_bit_mult [of 31 a "signed_take_bit 31 b", symmetric]
    signed_take_bit_mult [of 31 a b]
  by simp

lemma int32_small: "int32 256 = 256" "int32 65536 = 65536" "int32 16777216 = 16777216"
  by (simp_all add: int32_id)

lemma get_int_4:
  assumes "good bs st" "0 \<le> off" "nat off + 4 \<le> length bs"
  shows "get_int st off 4 =
     (int32 (uint (bs ! nat off) + uint (bs ! (nat off + 1)) * 256
        + uint (bs ! (nat off + 2)) * 65536 + uint (bs ! (nat off + 3)) * 16777216),
      st\<lparr>gpos := nat off + 4\<rparr>)"
proof -
  have n: "nat off + 1 = Suc (nat off)" "nat off + 2 = Suc (Suc (nat off))"
    "nat off + 3 = Suc (Suc (Suc (nat off)))" "nat off + 4 = Suc (Suc (Suc (Suc (nat off))))"
    by simp_all
  have lt: "nat off < length bs" "Suc (nat off) < length bs" "Suc (Suc (nat off)) < length bs"
    "Suc (Suc (Suc (nat off))) < length bs"
    using assms(3) by simp_all
  show ?thesis
    unfolding n get_int_def for_up_def seekg_good [OF assms(1,2)]
    by (simp add: upto_0_1 stream_get_at [OF assms(1)] lt
        int32_small int32_add_left int32_add_right int32_mult_right)
qed

lemma get_int_2:
  assumes "good bs st" "0 \<le> off" "nat off + 2 \<le> length bs"
  shows "get_int st off 2 =
     (int32 (uint (bs ! nat off) + uint (bs ! (nat off + 1)) * 256),
      st\<lparr>gpos := nat off + 2\<rparr>)"
proof -
  have n: "nat off + 1 = Suc (nat off)" "nat off + 2 = Suc (Suc (nat off))"
    by simp_all
  have lt: "nat off < length bs" "Suc (nat off) < length bs"
    using assms(3) by simp_all
  show ?thesis
    unfolding n get_int_def for_up_def seekg_good [OF assms(1,2)]
    by (simp add: upto_0_1 stream_get_at [OF assms(1)] lt
        int32_small int32_add_left int32_add_right int32_mult_right)
qed

lemma le32_value:
  assumes "0 \<le> v" "v < 2 ^ 31"
  shows "uint (word_of_int v :: byte) + uint (word_of_int (drop_bit 8 v) :: byte) * 256
       + uint (word_of_int (drop_bit 16 v) :: byte) * 65536
       + uint (word_of_int (drop_bit 24 v) :: byte) * 16777216 = v"
proof -
  define x1 where "x1 = v div 256"
  define x2 where "x2 = x1 div 256"
  define x3 where "x3 = x2 div 256"
  have d2: "v div 65536 = x2"
    unfolding x2_def x1_def using zdiv_zmult2_eq [of 256 v 256] by simp
  have d3: "v div 16777216 = x3"
    unfolding x3_def x2_def x1_def
    using zdiv_zmult2_eq [of 256 v 256] zdiv_zmult2_eq [of 256 v 65536] by simp
  have e0: "v = v mod 256 + 256 * x1" unfolding x1_def by simp
  have e1: "x1 = x1 mod 256 + 256 * x2" unfolding x2_def by simp
  have e2: "x2 = x2 mod 256 + 256 * x3" unfolding x3_def by simp
  have "0 \<le> x3" "x3 < 256"
    using assms unfolding d3 [symmetric] by simp_all
  then have e3: "x3 mod 256 = x3" by simp
  have "v mod 256 + x1 mod 256 * 256 + x2 mod 256 * 65536 + x3 mod 256 * 16777216 = v"
    using e0 e1 e2 e3 by linarith
  then show ?thesis
    by (simp add: uint_word_of_int drop_bit_eq_div x1_def [symmetric] d2 d3)
qed

lemma le16_value_24:
  "uint (word_of_int 24 :: byte) + uint (word_of_int (drop_bit 8 24) :: byte) * 256 = 24"
  by simp

lemma header_nth:
  "(header_bytes w h ab @ rest) ! 2 = word_of_int (14 + 40 + ab)"
  "(header_bytes w h ab @ rest) ! 3 = word_of_int (drop_bit 8 (14 + 40 + ab))"
  "(header_bytes w h ab @ rest) ! 4 = word_of_int (drop_bit 16 (14 + 40 + ab))"
  "(header_bytes w h ab @ rest) ! 5 = word_of_int (drop_bit 24 (14 + 40 + ab))"
  "(header_bytes w h ab @ rest) ! 10 = 54"
  "(header_bytes w h ab @ rest) ! 11 = 0"
  "(header_bytes w h ab @ rest) ! 12 = 0"
  "(header_bytes w h ab @ rest) ! 13 = 0"
  "(header_bytes w h ab @ rest) ! 18 = word_of_int w"
  "(header_bytes w h ab @ rest) ! 19 = word_of_int (drop_bit 8 w)"
  "(header_bytes w h ab @ rest) ! 20 = word_of_int (drop_bit 16 w)"
  "(header_bytes w h ab @ rest) ! 21 = word_of_int (drop_bit 24 w)"
  "(header_bytes w h ab @ rest) ! 22 = word_of_int h"
  "(header_bytes w h ab @ rest) ! 23 = word_of_int (drop_bit 8 h)"
  "(header_bytes w h ab @ rest) ! 24 = word_of_int (drop_bit 16 h)"
  "(header_bytes w h ab @ rest) ! 25 = word_of_int (drop_bit 24 h)"
  "(header_bytes w h ab @ rest) ! 28 = 24"
  "(header_bytes w h ab @ rest) ! 29 = 0"
  by (simp_all add: header_bytes_def le32_def le16_def)

lemma read_header_of_header:
  assumes "0 \<le> w" "w < 2 ^ 31" "0 \<le> h" "h < 2 ^ 31" "0 \<le> ab" "14 + 40 + ab < 2 ^ 31"
  shows "\<exists>st. good (header_bytes w h ab @ rest) st
     \<and> read_header (open_in (Some (header_bytes w h ab @ rest)))
         = ((14 + 40 + ab, 54, w, h, 24), st)"
proof -
  let ?bs = "header_bytes w h ab @ rest"
  let ?s0 = "open_in (Some ?bs)"
  have len: "54 \<le> length ?bs" by (simp add: length_header_bytes)
  have g0: "good ?bs ?s0" by (rule good_open)
  have fs: "0 \<le> 14 + 40 + ab" using assms(5) by simp
  have i1: "int32 (14 + 40 + ab) = 14 + 40 + ab"
    using fs assms(6) by (intro int32_id) simp_all
  have i3: "int32 w = w" using assms(1,2) by (intro int32_id) simp_all
  have i4: "int32 h = h" using assms(3,4) by (intro int32_id) simp_all
  have i5: "int32 54 = 54" "int32 24 = 24" by (simp_all add: int32_id)
  have 1: "get_int ?s0 2 4 = (14 + 40 + ab, ?s0\<lparr>gpos := 6\<rparr>)"
    using get_int_4 [OF g0, of 2] len le32_value [OF fs assms(6)] i1
    by (simp add: header_nth)
  have g1: "good ?bs (?s0\<lparr>gpos := 6\<rparr>)" by (rule good_gpos [OF g0])
  have 2: "get_int (?s0\<lparr>gpos := 6\<rparr>) 10 4 = (54, ?s0\<lparr>gpos := 14\<rparr>)"
    using get_int_4 [OF g1, of 10] len i5
    by (simp add: header_nth)
  have g2: "good ?bs (?s0\<lparr>gpos := 14\<rparr>)" by (rule good_gpos [OF g0])
  have 3: "get_int (?s0\<lparr>gpos := 14\<rparr>) 18 4 = (w, ?s0\<lparr>gpos := 22\<rparr>)"
    using get_int_4 [OF g2, of 18] len le32_value [OF assms(1,2)] i3
    by (simp add: header_nth)
  have g3: "good ?bs (?s0\<lparr>gpos := 22\<rparr>)" by (rule good_gpos [OF g0])
  have 4: "get_int (?s0\<lparr>gpos := 22\<rparr>) 22 4 = (h, ?s0\<lparr>gpos := 26\<rparr>)"
    using get_int_4 [OF g3, of 22] len le32_value [OF assms(3,4)] i4
    by (simp add: header_nth)
  have g4: "good ?bs (?s0\<lparr>gpos := 26\<rparr>)" by (rule good_gpos [OF g0])
  have 5: "get_int (?s0\<lparr>gpos := 26\<rparr>) 28 2 = (24, ?s0\<lparr>gpos := 30\<rparr>)"
    using get_int_2 [OF g4, of 28] len i5
    by (simp add: header_nth)
  have g5: "good ?bs (?s0\<lparr>gpos := 30\<rparr>)" by (rule good_gpos [OF g0])
  have "read_header ?s0 = ((14 + 40 + ab, 54, w, h, 24), ?s0\<lparr>gpos := 30\<rparr>)"
    by (simp add: read_header_def 1 2 3 4 5)
  with g5 show ?thesis by blast
qed




lemma read_image_steps:
  "read_image file =
     (let ((file_size, start, width, height, bits_per_pixel), st) = read_header (open_in file);
          scanline_size = int32 (width * c_div bits_per_pixel 8);
          padding = read_padding scanline_size
      in if file_size \<noteq> int32 (start + int32 (int32 (scanline_size + padding) * height))
         then Inr []
         else if width < 0 \<or> height < 0 then Inl LengthError
         else Inr (fst (for_down (height - 1) (row_step bits_per_pixel padding width)
                          (new_image_of height width, start, st))))"
  unfolding read_image_def row_step_def pixel_step_def
  by (simp add: Let_def split_def)

lemma pixel_overwrite_bgr:
  "(p :: Pixel)\<lparr>blue := z, green := y, red := x\<rparr> = \<lparr>red = x, green = y, blue = z\<rparr>"
  by (cases p) simp

lemma store_bgr:
  "store_red (store_green (store_blue img i j z) i j y) i j x =
     put img (nat i) (nat j) \<lparr>red = x, green = y, blue = z\<rparr>"
proof (cases "nat i < length img \<and> nat j < length (img ! nat i)")
  case True
  then show ?thesis
    by (simp add: store_red_def store_green_def store_blue_def put_def pixel_overwrite_bgr)
next
  case False
  have r: "store_red img i j x = img"
    using put_beyond [OF False] by (simp add: store_red_def put_def)
  have g: "store_green img i j y = img"
    using put_beyond [OF False] by (simp add: store_green_def put_def)
  have b: "store_blue img i j z = img"
    using put_beyond [OF False] by (simp add: store_blue_def put_def)
  show ?thesis by (simp add: r g b put_beyond [OF False])
qed

lemma pixel_step_good:
  assumes "good bs st" "0 \<le> pos" "nat pos + 3 \<le> length bs" "int (length bs) < 2 ^ 31"
  shows "pixel_step 24 i j (img, pos, st) =
     (put img (nat i) (nat j) (decode_px bs (nat pos)), pos + 3, st\<lparr>gpos := nat pos + 3\<rparr>)"
proof -
  have n: "nat pos + 1 = Suc (nat pos)" "nat pos + 2 = Suc (Suc (nat pos))"
    "nat pos + 3 = Suc (Suc (Suc (nat pos)))"
    by simp_all
  have lt: "nat pos < length bs" "Suc (nat pos) < length bs" "Suc (Suc (nat pos)) < length bs"
    using assms(3) by simp_all
  have d: "c_div 24 8 = 3" by (simp add: c_div_def)
  have w: "int32 (pos + 3) = pos + 3"
    using assms(2,3,4) by (intro int32_id) simp_all
  show ?thesis
    unfolding pixel_step_def decode_px_def n
    by (simp add: seekg_good [OF assms(1,2)] stream_get_at [OF assms(1)] lt store_bgr d w)
qed

lemma for_up_0: "for_up 0 0 f s = s"
  by (simp add: for_up_def)

lemma for_up_Suc: "for_up 0 (int (Suc n)) f s = f (int n) (for_up 0 (int n) f s)"
proof -
  have "for_up 0 (int (Suc n)) f s = fold f (map int [0..<Suc n]) s"
    unfolding for_up_def upto_as_upt ..
  also have "\<dots> = f (int n) (fold f (map int [0..<n]) s)" by simp
  also have "fold f (map int [0..<n]) s = for_up 0 (int n) f s"
    unfolding for_up_def upto_as_upt ..
  finally show ?thesis .
qed

lemma fill_row_Suc:
  "fill_row bs (Suc n) i p img = put (fill_row bs n i p img) i n (decode_px bs (p + 3 * n))"
  by (simp add: fill_row_def)

lemma row_pixels_good:
  assumes "good bs st" "0 \<le> pos" "int (length bs) < 2 ^ 31" "nat pos + 3 * n \<le> length bs"
  shows "\<exists>st'. good bs st'
     \<and> for_up 0 (int n) (pixel_step 24 i) (img, pos, st)
         = (fill_row bs n (nat i) (nat pos) img, pos + 3 * int n, st')"
  using assms(4)
proof (induction n)
  case 0
  show ?case using assms(1) by (simp add: for_up_0 fill_row_def)
next
  case (Suc n)
  then obtain st' where g: "good bs st'"
    and eq: "for_up 0 (int n) (pixel_step 24 i) (img, pos, st)
         = (fill_row bs n (nat i) (nat pos) img, pos + 3 * int n, st')"
    by auto
  have p0: "0 \<le> pos + 3 * int n" using assms(2) by simp
  have np: "nat (pos + 3 * int n) = nat pos + 3 * n"
    using assms(2) by (simp add: nat_add_distrib nat_mult_distrib)
  have le: "nat (pos + 3 * int n) + 3 \<le> length bs"
    using Suc.prems unfolding np by simp
  have "for_up 0 (int (Suc n)) (pixel_step 24 i) (img, pos, st)
      = (fill_row bs (Suc n) (nat i) (nat pos) img, pos + 3 * int (Suc n),
         st'\<lparr>gpos := nat (pos + 3 * int n) + 3\<rparr>)"
    unfolding for_up_Suc eq pixel_step_good [OF g p0 le assms(3)] fill_row_Suc np
    by simp
  moreover have "good bs (st'\<lparr>gpos := nat (pos + 3 * int n) + 3\<rparr>)"
    by (rule good_gpos [OF g])
  ultimately show ?case by blast
qed

lemma row_step_good:
  assumes "good bs st" "0 \<le> pos" "int (length bs) < 2 ^ 31"
    "nat pos + 3 * n + pad \<le> length bs"
  shows "\<exists>st'. good bs st'
     \<and> row_step 24 (int pad) (int n) i (img, pos, st)
         = (fill_row bs n (nat i) (nat pos) img, pos + int (3 * n + pad), st')"
proof -
  have "nat pos + 3 * n \<le> length bs" using assms(4) by simp
  from row_pixels_good [OF assms(1,2,3) this, of i img]
  obtain st' where g: "good bs st'"
    and eq: "for_up 0 (int n) (pixel_step 24 i) (img, pos, st)
         = (fill_row bs n (nat i) (nat pos) img, pos + 3 * int n, st')"
    by auto
  have w: "int32 (pos + 3 * int n + int pad) = pos + 3 * int n + int pad"
    using assms(2,3,4) by (intro int32_id) simp_all
  have "row_step 24 (int pad) (int n) i (img, pos, st)
      = (fill_row bs n (nat i) (nat pos) img, pos + int (3 * n + pad),
         st'\<lparr>gpos := nat (int (gpos st') + int pad)\<rparr>)"
    unfolding row_step_def by (simp add: eq seekg_cur_good [OF g] w)
  moreover have "good bs (st'\<lparr>gpos := nat (int (gpos st') + int pad)\<rparr>)"
    by (rule good_gpos [OF g])
  ultimately show ?thesis by blast
qed

lemma rows_good:
  assumes "int (length bs) < 2 ^ 31"
    and "good bs st" "0 \<le> pos" "nat pos + length rows * (3 * n + pad) \<le> length bs"
  shows "\<exists>st'. good bs st'
     \<and> fold (row_step 24 (int pad) (int n)) (map int rows) (img, pos, st)
         = (fill_rows bs n (3 * n + pad) rows (nat pos) img,
            pos + int (length rows * (3 * n + pad)), st')"
  using assms(2-)
proof (induction rows arbitrary: img pos st)
  case Nil
  then show ?case by simp
next
  case (Cons i rows)
  have "nat pos + 3 * n + pad \<le> length bs" using Cons.prems(3) by simp
  from row_step_good [OF Cons.prems(1,2) assms(1) this, of "int i" img]
  obtain st1 where g1: "good bs st1"
    and eq1: "row_step 24 (int pad) (int n) (int i) (img, pos, st)
         = (fill_row bs n i (nat pos) img, pos + int (3 * n + pad), st1)"
    by auto
  have p1: "0 \<le> pos + int (3 * n + pad)" using Cons.prems(2) by simp
  have np: "nat (pos + int (3 * n + pad)) = nat pos + (3 * n + pad)"
    using Cons.prems(2) by (simp add: nat_add_distrib)
  have le: "nat (pos + int (3 * n + pad)) + length rows * (3 * n + pad) \<le> length bs"
    using Cons.prems(3) unfolding np by simp
  from Cons.IH [OF g1 p1 le, of "fill_row bs n i (nat pos) img"]
  obtain st' where g: "good bs st'"
    and eq: "fold (row_step 24 (int pad) (int n)) (map int rows)
           (fill_row bs n i (nat pos) img, pos + int (3 * n + pad), st1)
         = (fill_rows bs n (3 * n + pad) rows (nat (pos + int (3 * n + pad)))
              (fill_row bs n i (nat pos) img),
            pos + int (3 * n + pad) + int (length rows * (3 * n + pad)), st')"
    by auto
  have "fold (row_step 24 (int pad) (int n)) (map int (i # rows)) (img, pos, st)
      = fold (row_step 24 (int pad) (int n)) (map int rows)
          (row_step 24 (int pad) (int n) (int i) (img, pos, st))"
    by simp
  also have "\<dots> = (fill_rows bs n (3 * n + pad) rows (nat (pos + int (3 * n + pad)))
              (fill_row bs n i (nat pos) img),
            pos + int (3 * n + pad) + int (length rows * (3 * n + pad)), st')"
    unfolding eq1 by (rule eq)
  also have "\<dots> = (fill_rows bs n (3 * n + pad) (i # rows) (nat pos) img,
            pos + int (length (i # rows) * (3 * n + pad)), st')"
    unfolding np by (simp add: algebra_simps)
  finally show ?case using g by blast
qed

lemma put_other_row: "a \<noteq> i \<Longrightarrow> put img i j p ! a = img ! a"
  by (simp add: put_def)

lemma fill_row_lengths: "map length (fill_row bs n i p img) = map length img"
  unfolding fill_row_def by (rule fold_put_lengths)

lemma fill_row_other: "a \<noteq> i \<Longrightarrow> fill_row bs n i p img ! a = img ! a"
  unfolding fill_row_def by (induction n) (simp_all add: put_other_row)

lemma fill_row_nth:
  assumes "j < n" "i < length img" "j < length (img ! i)"
  shows "fill_row bs n i p img ! i ! j = decode_px bs (p + 3 * j)"
proof -
  have "fold (\<lambda>j img. put img (fst (i, j)) (snd (i, j)) (decode_px bs (p + 3 * j))) [0..<n] img
          ! fst (i, j) ! snd (i, j) = decode_px bs (p + 3 * j)"
  proof (rule fold_put_nth)
    show "inj_on (Pair i) (set [0..<n])" by (simp add: inj_on_def)
    show "j \<in> set [0..<n]" using assms(1) by simp
  qed (use assms in simp_all)
  then show ?thesis by (simp add: fill_row_def)
qed

lemma same_lengths:
  assumes "map length xs = map length ys"
  shows "length xs = length ys" and "i < length ys \<Longrightarrow> length (xs ! i) = length (ys ! i)"
proof -
  show l: "length xs = length ys" using arg_cong [OF assms, of length] by simp
  assume "i < length ys"
  then show "length (xs ! i) = length (ys ! i)"
    using arg_cong [OF assms, of "\<lambda>ls. ls ! i"] l by simp
qed

lemma fill_rows_lengths: "map length (fill_rows bs n rl rows p img) = map length img"
  by (induction rows arbitrary: p img) (simp_all add: fill_row_lengths)

lemma fill_rows_other: "a \<notin> set rows \<Longrightarrow> fill_rows bs n rl rows p img ! a = img ! a"
  by (induction rows arbitrary: p img) (simp_all add: fill_row_other)

lemma fill_rows_nth:
  assumes "distinct rows" "k < length rows" "rows ! k < length img" "j < n"
    "j < length (img ! (rows ! k))"
  shows "fill_rows bs n rl rows p img ! (rows ! k) ! j = decode_px bs (p + k * rl + 3 * j)"
  using assms
proof (induction rows arbitrary: p img k)
  case Nil
  then show ?case by simp
next
  case (Cons i rows)
  let ?img = "fill_row bs n i p img"
  note len = same_lengths [OF fill_row_lengths [of bs n i p img]]
  show ?case
  proof (cases k)
    case 0
    have "i \<notin> set rows" using Cons.prems(1) by simp
    then have "fill_rows bs n rl rows (p + rl) ?img ! i = ?img ! i"
      by (rule fill_rows_other)
    moreover have "?img ! i ! j = decode_px bs (p + 3 * j)"
      using Cons.prems 0 by (intro fill_row_nth) simp_all
    ultimately show ?thesis using 0 by simp
  next
    case (Suc k')
    have d: "distinct rows" using Cons.prems(1) by simp
    have k': "k' < length rows" using Cons.prems(2) Suc by simp
    have r: "rows ! k' < length img" using Cons.prems(3) Suc by simp
    have r': "rows ! k' < length ?img" using r len(1) by simp
    have j': "j < length (?img ! (rows ! k'))"
      using Cons.prems(5) Suc len(2) [OF r] by simp
    have "fill_rows bs n rl rows (p + rl) ?img ! (rows ! k') ! j
        = decode_px bs (p + rl + k' * rl + 3 * j)"
      by (rule Cons.IH [OF d k' r' Cons.prems(4) j'])
    then show ?thesis using Suc by (simp add: add.assoc)
  qed
qed

lemma int_pad_of: "int (pad_of img) = write_padding (int (length (img ! 0)) * 3)"
  using padding_range [of "int (length (img ! 0)) * 3"]
  by (simp add: pad_of_def write_padding_nonneg)

lemma decode_encoded_pixel:
  assumes "h < length img" "w < length (img ! 0)"
    and "0 \<le> red (img ! h ! w)" "red (img ! h ! w) \<le> 255"
    and "0 \<le> green (img ! h ! w)" "green (img ! h ! w) \<le> 255"
    and "0 \<le> blue (img ! h ! w)" "blue (img ! h ! w) \<le> 255"
  shows "decode_px (encoded img) (pixel_offset img h w) = img ! h ! w"
proof -
  have "decode_px (encoded img) (pixel_offset img h w)
      = \<lparr>red = red (img ! h ! w) mod 256, green = green (img ! h ! w) mod 256,
         blue = blue (img ! h ! w) mod 256\<rparr>"
    using encoded_pixel_nth [OF assms(1,2), of 0] encoded_pixel_nth [OF assms(1,2), of 1]
      encoded_pixel_nth [OF assms(1,2), of 2]
    by (simp add: decode_px_def px_bytes_def uint_word_of_int)
  also have "\<dots> = \<lparr>red = red (img ! h ! w), green = green (img ! h ! w),
         blue = blue (img ! h ! w)\<rparr>"
    using assms(3-8) by simp
  finally show ?thesis by (simp add: pixel_eta)
qed

lemma read_image_encoded:
  assumes "rectangular img" "sizes_fit_int img"
  shows "read_image (Some (encoded img)) =
     Inr (fill_rows (encoded img) (length (img ! 0)) (row_len img) (rev [0..<length img]) 54
            (new_image_of (int (length img)) (int (length (img ! 0)))))"
proof -
  let ?W = "length (img ! 0)" and ?H = "length img"
  let ?ab = "(int ?W * 3 + write_padding (int ?W * 3)) * int ?H"
  let ?bs = "encoded img"
  have pad: "write_padding (int ?W * 3) = int (pad_of img)" by (simp add: int_pad_of)
  have ab0: "0 \<le> ?ab" unfolding pad by simp
  have fits: "int ?W < 2 ^ 31" "int ?H < 2 ^ 31" "14 + 40 + ?ab < 2 ^ 31"
    using assms(2) by (simp_all add: sizes_fit_int_def)
  have H1: "1 \<le> int ?H" using assms(1) by (cases img) (simp_all add: rectangular_def)
  have row_le: "int ?W * 3 + int (pad_of img) \<le> ?ab"
    unfolding pad using H1 mult_left_mono [of 1 "int ?H" "int ?W * 3 + int (pad_of img)"]
    by simp
  have lb: "int (length ?bs) = 14 + 40 + ?ab"
    unfolding pad by (simp add: length_encoded row_len_def algebra_simps)
  have lbs: "int (length ?bs) < 2 ^ 31" unfolding lb by (rule fits(3))
  obtain st where g: "good ?bs st"
    and hd: "read_header (open_in (Some ?bs)) = ((14 + 40 + ?ab, 54, int ?W, int ?H, 24), st)"
    using read_header_of_header [OF _ fits(1) _ fits(2) ab0 fits(3)]
    unfolding encoded_def by auto
  have d: "c_div 24 8 = 3" by (simp add: c_div_def)
  have w0: "0 \<le> int ?W * 3" by simp
  have i1: "int32 (int ?W * 3) = int ?W * 3"
    using row_le fits(3) by (intro int32_id) linarith+
  have rp: "read_padding (int ?W * 3) = int (pad_of img)"
    unfolding read_padding_nonneg [OF w0] write_padding_nonneg [OF w0, symmetric] by (rule pad)
  have i2: "int32 (int ?W * 3 + int (pad_of img)) = int ?W * 3 + int (pad_of img)"
    using row_le fits(3) by (intro int32_id) linarith+
  have ab1: "0 \<le> (int ?W * 3 + int (pad_of img)) * int ?H" by simp
  have ab2: "14 + 40 + (int ?W * 3 + int (pad_of img)) * int ?H < 2 ^ 31"
    using fits(3) unfolding pad .
  have i3: "int32 ((int ?W * 3 + int (pad_of img)) * int ?H)
      = (int ?W * 3 + int (pad_of img)) * int ?H"
    using ab1 ab2 by (intro int32_id) linarith+
  have i4: "int32 (54 + (int ?W * 3 + int (pad_of img)) * int ?H)
      = 54 + (int ?W * 3 + int (pad_of img)) * int ?H"
    using ab1 ab2 by (intro int32_id) linarith+
  have le: "nat 54 + length (rev [0..<?H]) * (3 * ?W + pad_of img) \<le> length ?bs"
    by (simp add: length_encoded row_len_def)
  obtain st' where
    lp: "fold (row_step 24 (int (pad_of img)) (int ?W)) (map int (rev [0..<?H]))
           (new_image_of (int ?H) (int ?W), 54, st)
         = (fill_rows ?bs ?W (3 * ?W + pad_of img) (rev [0..<?H]) (nat 54)
              (new_image_of (int ?H) (int ?W)),
            54 + int (length (rev [0..<?H]) * (3 * ?W + pad_of img)), st')"
    using rows_good [OF lbs g _ le, of "new_image_of (int ?H) (int ?W)"] by auto
  have fd: "for_down (int ?H - 1) (row_step 24 (int (pad_of img)) (int ?W))
           (new_image_of (int ?H) (int ?W), 54, st)
      = (fill_rows ?bs ?W (row_len img) (rev [0..<?H]) 54 (new_image_of (int ?H) (int ?W)),
         54 + int (length (rev [0..<?H]) * (3 * ?W + pad_of img)), st')"
    unfolding for_down_def upto_rev_as_upt lp by (simp add: row_len_def)
  have chk: "14 + 40 + ?ab
      = int32 (54 + int32 (int32 (int32 (int ?W * c_div 24 8)
                  + read_padding (int32 (int ?W * c_div 24 8))) * int ?H))"
    unfolding d i1 rp i2 i3 i4 pad by simp
  have "read_image (Some ?bs) =
      Inr (fst (for_down (int ?H - 1)
                 (row_step 24 (read_padding (int32 (int ?W * c_div 24 8))) (int ?W))
                 (new_image_of (int ?H) (int ?W), 54, st)))"
    unfolding read_image_steps hd Let_def prod.case
    using chk by (simp only: if_False not_not of_nat_less_0_iff simp_thms)
  then show ?thesis
    unfolding d i1 rp fd fst_conv .
qed

lemma decoded_rows_eq:
  assumes "rectangular img" "channels_in_range img"
  shows "fill_rows (encoded img) (length (img ! 0)) (row_len img) (rev [0..<length img]) 54
            (new_image_of (int (length img)) (int (length (img ! 0)))) = img"
    (is "?out = img")
proof (rule nth_equalityI)
  let ?W = "length (img ! 0)" and ?H = "length img"
  let ?new = "new_image_of (int ?H) (int ?W)"
  have lens: "map length ?out = map length ?new" by (rule fill_rows_lengths)
  note len = same_lengths [OF lens]
  have new_len: "length ?new = ?H" by (simp add: new_image_of_def)
  have new_row: "length (?new ! i) = ?W" if "i < ?H" for i
    using that by (simp add: new_image_of_def)
  show l: "length ?out = length img" using len(1) new_len by simp
  fix i assume "i < length ?out"
  then have i: "i < ?H" using l by simp
  have inew: "i < length ?new" using i new_len by simp
  have lo: "length (?out ! i) = ?W" using len(2) [OF inew] new_row [OF i] by simp
  have li: "length (img ! i) = ?W" by (rule rectangular_row [OF assms(1) i])
  show "?out ! i = img ! i"
  proof (rule nth_equalityI)
    show "length (?out ! i) = length (img ! i)" using lo li by simp
    fix j assume "j < length (?out ! i)"
    then have j: "j < ?W" using lo by simp
    let ?k = "?H - 1 - i"
    have k: "?k < length (rev [0..<?H])" using i by simp
    have rk: "rev [0..<?H] ! ?k = i" using i by (simp add: rev_nth)
    have "fill_rows (encoded img) ?W (row_len img) (rev [0..<?H]) 54 ?new
            ! (rev [0..<?H] ! ?k) ! j
        = decode_px (encoded img) (54 + ?k * row_len img + 3 * j)"
    proof (rule fill_rows_nth [OF _ k _ j])
      show "distinct (rev [0..<?H])" by simp
      show "rev [0..<?H] ! ?k < length ?new" unfolding rk by (rule inew)
      show "j < length (?new ! (rev [0..<?H] ! ?k))"
        unfolding rk using new_row [OF i] j by simp
    qed
    then have "?out ! i ! j = decode_px (encoded img) (pixel_offset img i j)"
      unfolding rk pixel_offset_def .
    moreover have "img ! i \<in> set img" using i by simp
    moreover have "img ! i ! j \<in> set (img ! i)" using j li by simp
    ultimately show "?out ! i ! j = img ! i ! j"
      using assms(2) decode_encoded_pixel [OF i j]
      unfolding channels_in_range_def by metis
  qed
qed

text \<open>
  C1. For a non-empty rectangular grid whose channels are all in 0..255 and whose
  sizes fit \<^verbatim>\<open>int\<close>, \<^verbatim>\<open>write_image\<close> succeeds and \<^verbatim>\<open>read_image\<close> applied to the
  bytes written returns the grid.
\<close>

theorem round_trip:
  assumes "rectangular img" "channels_in_range img" "sizes_fit_int img"
  shows "\<exists>bs. write_image True img = Some bs \<and> read_image (Some bs) = Inr img"
proof -
  have "read_image (Some (encoded img)) = Inr img"
    unfolding read_image_encoded [OF assms(1,3)] decoded_rows_eq [OF assms(1,2)] ..
  then show ?thesis using write_image_encoded [of img] by blast
qed

theorem round_trip_witness:
  "rectangular [[\<lparr>red = 255, green = 0, blue = 0\<rparr>, \<lparr>red = 1, green = 2, blue = 3\<rparr>]]
   \<and> channels_in_range [[\<lparr>red = 255, green = 0, blue = 0\<rparr>, \<lparr>red = 1, green = 2, blue = 3\<rparr>]]
   \<and> sizes_fit_int [[\<lparr>red = 255, green = 0, blue = 0\<rparr>, \<lparr>red = 1, green = 2, blue = 3\<rparr>]]
   \<and> (\<exists>bs. write_image True [[\<lparr>red = 255, green = 0, blue = 0\<rparr>, \<lparr>red = 1, green = 2, blue = 3\<rparr>]] = Some bs
          \<and> read_image (Some bs)
              = Inr [[\<lparr>red = 255, green = 0, blue = 0\<rparr>, \<lparr>red = 1, green = 2, blue = 3\<rparr>]])"
proof -
  let ?g = "[[\<lparr>red = 255, green = 0, blue = 0\<rparr>, \<lparr>red = 1, green = 2, blue = 3\<rparr>]]"
  have r: "rectangular ?g" by (simp add: rectangular_def)
  have c: "channels_in_range ?g" by (simp add: channels_in_range_def)
  have s: "sizes_fit_int ?g"
    by (simp add: sizes_fit_int_def write_padding_def c_mod_def c_div_def)
  show ?thesis using r c s round_trip [OF r c s] by blast
qed

section \<open>Grayscale and repeated rotation on the intended inputs\<close>

text \<open>
  What \<^verbatim>\<open>process_3\<close> computes where the channel sum is not negative: the
  quotient of the integer division by 3, since adding 0.5 to an integer and
  truncating gives the integer back.
\<close>

lemma process_3_pixels:
  assumes "rectangular img" "r < length img" "c < length (img ! 0)"
    and "0 \<le> red (img ! r ! c) + green (img ! r ! c) + blue (img ! r ! c)"
  shows "process_3 img ! r ! c =
     \<lparr>red = (red (img ! r ! c) + green (img ! r ! c) + blue (img ! r ! c)) div 3,
      green = (red (img ! r ! c) + green (img ! r ! c) + blue (img ! r ! c)) div 3,
      blue = (red (img ! r ! c) + green (img ! r ! c) + blue (img ! r ! c)) div 3\<rparr>"
proof -
  let ?s = "red (img ! r ! c) + green (img ! r ! c) + blue (img ! r ! c)"
  have d: "c_div ?s 3 = ?s div 3" using assms(4) by (simp add: c_div_nonneg)
  have "0 \<le> ?s div 3" using assms(4) by simp
  then have "double_to_int (of_int (?s div 3) + 1 / 2) = ?s div 3"
    by (rule double_to_int_half)
  then show ?thesis
    unfolding process_3_pixelwise pixelwise_nth [OF assms(2,3)] gray_px_def Let_def d
    by simp
qed

text \<open>
  For a number of turns that is not negative, \<^verbatim>\<open>process_5\<close> is \<^verbatim>\<open>process_4\<close>
  applied \<open>n mod 4\<close> times.
\<close>

lemma process_5_nonneg:
  assumes "0 \<le> n"
  shows "process_5 img n = (process_4 ^^ nat (n mod 4)) img"
proof -
  have a0: "0 \<le> n * 90" using assms by simp
  have m90: "c_mod (n * 90) 90 = 0" using a0 by (simp add: c_mod_nonneg)
  have "(90 * n) mod (90 * 4) = 90 * (n mod 4)" by (rule mult_mod_right [symmetric])
  then have m360: "c_mod (n * 90) 360 = 90 * (n mod 4)"
    using a0 by (simp add: c_mod_nonneg mult.commute)
  have "n mod 4 = 0 \<or> n mod 4 = 1 \<or> n mod 4 = 2 \<or> n mod 4 = 3" by presburger
  then show ?thesis
  proof (elim disjE)
    assume "n mod 4 = 0"
    then show ?thesis by (simp add: process_5_def m90 m360)
  next
    assume "n mod 4 = 1"
    then show ?thesis by (simp add: process_5_def m90 m360)
  next
    assume "n mod 4 = 2"
    then show ?thesis by (simp add: process_5_def m90 m360 numeral_2_eq_2)
  next
    assume "n mod 4 = 3"
    then show ?thesis by (simp add: process_5_def m90 m360 numeral_3_eq_3)
  qed
qed

section \<open>Grayscale, high contrast, repeated rotation, posterisation\<close>

lemmas eval_defs = for_up_def new_image_of_def store_red_def store_green_def store_blue_def
  c_div_def c_mod_def double_to_int_def

text \<open>
  C4. On the one-pixel grid \<open>(0, 0, 2)\<close> \<^verbatim>\<open>process_3\<close> (Grayscale) yields the gray
  value 0: the integer division \<^verbatim>\<open>(red + green + blue)/3\<close> has already dropped the
  fraction when 0.5 is added. The mean \<open>2/3\<close> rounds to 1.
\<close>

theorem process_3_truncates:
  "process_3 [[\<lparr>red = 0, green = 0, blue = 2\<rparr>]] = [[\<lparr>red = 0, green = 0, blue = 0\<rparr>]]
   \<and> round ((of_int (0 + 0 + 2) :: real) / 3) = (1 :: int)"
  by (simp add: process_3_def eval_defs round_def)




text \<open>
  C6. For \<open>N = -2\<close> \<^verbatim>\<open>process_5\<close> (RotateN) turns a one-row grid of two pixels
  three times, not \<open>-2 mod 4 = 2\<close> times: \<^verbatim>\<open>-180 % 360\<close> is \<open>-180\<close> in C++, so the
  last branch is taken.
\<close>

theorem process_5_negative:
  "process_5 [[\<lparr>red = 1, green = 2, blue = 3\<rparr>, \<lparr>red = 4, green = 5, blue = 6\<rparr>]] (- 2)
     = [[\<lparr>red = 4, green = 5, blue = 6\<rparr>], [\<lparr>red = 1, green = 2, blue = 3\<rparr>]]
   \<and> (process_4 ^^ nat (- 2 mod 4))
         [[\<lparr>red = 1, green = 2, blue = 3\<rparr>, \<lparr>red = 4, green = 5, blue = 6\<rparr>]]
     = [[\<lparr>red = 4, green = 5, blue = 6\<rparr>, \<lparr>red = 1, green = 2, blue = 3\<rparr>]]"
proof -
  let ?a = "\<lparr>red = 1, green = 2, blue = 3\<rparr>" and ?b = "\<lparr>red = 4, green = 5, blue = 6\<rparr>"
  have t1: "process_4 [[?a, ?b]] = [[?a], [?b]]"
    by code_simp
  have t2: "process_4 [[?a], [?b]] = [[?b, ?a]]"
    by code_simp
  have t3: "process_4 [[?b, ?a]] = [[?b], [?a]]"
    by code_simp
  have n: "nat (- 2 mod 4) = Suc (Suc 0)" by simp
  have "process_5 [[?a, ?b]] (- 2) = [[?b], [?a]]"
    by code_simp
  moreover have "(process_4 ^^ nat (- 2 mod 4)) [[?a, ?b]] = [[?b, ?a]]"
    unfolding n by (simp add: t1 t2)
  ultimately show ?thesis by (rule conjI)
qed

text \<open>
  C9. For a non-empty rectangular grid with channels in 0..255,
  \<^verbatim>\<open>process_10\<close> (Posterize5) keeps the dimensions and maps a pixel to white if
  \<open>R + G + B \<ge> 550\<close>, to black if \<open>R + G + B \<le> 150\<close>, and otherwise to pure
  red if red is a maximal channel, else to pure green if green is, else to pure
  blue.
\<close>

theorem process_10_classifies:
  assumes "rectangular img" "channels_in_range img"
  shows "length (process_10 img) = length img
       \<and> (\<forall>row \<in> set (process_10 img). length row = length (img ! 0))
       \<and> (\<forall>r < length img. \<forall>c < length (img ! 0).
             process_10 img ! r ! c =
               (if 550 \<le> red (img ! r ! c) + green (img ! r ! c) + blue (img ! r ! c)
                  then \<lparr>red = 255, green = 255, blue = 255\<rparr>
                else if red (img ! r ! c) + green (img ! r ! c) + blue (img ! r ! c) \<le> 150
                  then \<lparr>red = 0, green = 0, blue = 0\<rparr>
                else if green (img ! r ! c) \<le> red (img ! r ! c)
                      \<and> blue (img ! r ! c) \<le> red (img ! r ! c)
                  then \<lparr>red = 255, green = 0, blue = 0\<rparr>
                else if red (img ! r ! c) \<le> green (img ! r ! c)
                      \<and> blue (img ! r ! c) \<le> green (img ! r ! c)
                  then \<lparr>red = 0, green = 255, blue = 0\<rparr>
                else \<lparr>red = 0, green = 0, blue = 255\<rparr>))"
proof -
  have px: "poster_px p =
      (if 550 \<le> red p + green p + blue p then \<lparr>red = 255, green = 255, blue = 255\<rparr>
       else if red p + green p + blue p \<le> 150 then \<lparr>red = 0, green = 0, blue = 0\<rparr>
       else if green p \<le> red p \<and> blue p \<le> red p then \<lparr>red = 255, green = 0, blue = 0\<rparr>
       else if red p \<le> green p \<and> blue p \<le> green p then \<lparr>red = 0, green = 255, blue = 0\<rparr>
       else \<lparr>red = 0, green = 0, blue = 255\<rparr>)" for p
    unfolding poster_px_def by (simp add: max_def)
  show ?thesis
    unfolding process_10_pixelwise
    using lengths_replicate [OF pixelwise_lengths [of poster_px img]]
    by (simp add: pixelwise_nth px)
qed

theorem process_10_classifies_witness:
  "rectangular [[\<lparr>red = 100, green = 200, blue = 200\<rparr>]]
   \<and> channels_in_range [[\<lparr>red = 100, green = 200, blue = 200\<rparr>]]
   \<and> process_10 [[\<lparr>red = 100, green = 200, blue = 200\<rparr>]] ! 0 ! 0
       = \<lparr>red = 0, green = 255, blue = 0\<rparr>"
  using process_10_classifies [of "[[\<lparr>red = 100, green = 200, blue = 200\<rparr>]]"]
  by (simp add: rectangular_def channels_in_range_def)

end
